theory Spec2Isabelle
  imports Complex_Main "HOL-Library.Word" "HOL-Library.Sublist"
begin

section \<open>Data model\<close>

text \<open>
  The program (\<^verbatim>\<open>main.go\<close>) serves a pre-recorded HLS playlist as if it were live.
  Its numbers are Go \<^verbatim>\<open>float64\<close> seconds; they are modelled as \<^typ>\<open>real\<close>, so rounding and
  NaN are outside the model. Instants of the wall clock (\<^verbatim>\<open>time.Time\<close>) are seconds as
  \<^typ>\<open>real\<close>; \<^verbatim>\<open>time.Since(s).Seconds()\<close> at instant \<open>now\<close> is \<open>now - s\<close>.
  A \<^verbatim>\<open>*m3u8.MediaSegment\<close> is a pointer: \<open>None\<close> is \<^verbatim>\<open>nil\<close>, and reading a field through
  \<^verbatim>\<open>nil\<close> is a run-time panic, which the model returns as a value.
\<close>

record MediaSegment =
  URI :: string
  Duration :: real

text \<open>
  \<^verbatim>\<open>m3u8.MediaPlaylist\<close>: the fields the handlers read or write. \<open>Segments\<close> is the slice
  of pointers \<^verbatim>\<open>[]*MediaSegment\<close>; \<open>winsize\<close>, \<open>capacity\<close> and \<open>count\<close> are the
  library's private bookkeeping of a playlist under construction.
\<close>

record MediaPlaylist =
  TargetDuration :: real
  SeqNo :: "64 word"
  Segments :: "MediaSegment option list"
  winsize :: nat
  capacity :: nat
  count :: nat

datatype m3u8_error = ErrWinSize | ErrPlaylistFull

text \<open>
  Modelled from the spec: \<^verbatim>\<open>m3u8.NewMediaPlaylist\<close>, \<^verbatim>\<open>AppendSegment\<close> and \<^verbatim>\<open>Encode\<close>
  belong to the library \<^verbatim>\<open>github.com/grafov/m3u8\<close>, which is not part of the sources; the
  specification says of a window only that it is an ordered list of segments with a
  sequence number. The three operations follow the library's documented contract: a new
  playlist has \<open>capacity\<close> empty slots and is refused only when the window size exceeds the
  capacity; appending fills the next free slot, and once every slot is used it fails with
  \<^verbatim>\<open>ErrPlaylistFull\<close> and leaves the playlist as it was; encoding lists the appended
  segments from the first on, at most \<open>winsize\<close> of them (all when \<open>winsize\<close> is 0), under
  the playlist's sequence number. No handler of the program removes a segment, so the
  library's ring buffer always starts at slot 0. Fields no handler reads (the segments'
  ids, the target duration of the playlist under construction, the encoding cache) are
  left out.
\<close>

definition NewMediaPlaylist :: "nat \<Rightarrow> nat \<Rightarrow> m3u8_error + MediaPlaylist" where
  "NewMediaPlaylist w c =
     (if c < w then Inl ErrWinSize
      else Inr \<lparr>TargetDuration = 0, SeqNo = 0, Segments = replicate c None,
                winsize = w, capacity = c, count = 0\<rparr>)"

definition AppendSegment :: "MediaPlaylist \<Rightarrow> MediaSegment \<Rightarrow> m3u8_error + MediaPlaylist" where
  "AppendSegment p seg =
     (if capacity p \<le> count p then Inl ErrPlaylistFull
      else Inr (p\<lparr>Segments := (Segments p)[count p := Some seg], count := Suc (count p)\<rparr>))"

text \<open>The body of a manifest response: what \<^verbatim>\<open>Encode\<close> writes, without the text format.\<close>

record manifest =
  m_SeqNo :: "64 word"
  m_Segments :: "MediaSegment list"

fun present :: "MediaSegment option list \<Rightarrow> MediaSegment list" where
  "present [] = []"
| "present (None # ps) = present ps"
| "present (Some s # ps) = s # present ps"

definition Encode :: "MediaPlaylist \<Rightarrow> manifest" where
  "Encode p =
     (let appended = present (take (count p) (Segments p))
      in \<lparr>m_SeqNo = SeqNo p,
          m_Segments = (if winsize p = 0 then appended else take (winsize p) appended)\<rparr>)"

section \<open>The handler\<close>

text \<open>How much time to project into the future.\<close>

definition futureTime :: real where
  "futureTime = 5"

record FakeLHLSManifestHandler =
  startTime :: real
  duration :: real
  playlist :: MediaPlaylist
  baseDir :: string

datatype panic = NilPointerDereference | SliceBoundsOutOfRange

text \<open>
  A shaped segment transfer: how long \<^verbatim>\<open>time.Sleep\<close> suspended the request (nanoseconds),
  the two numbers the handler computes and prints, and the bytes copied through the
  rate-limited writer.
\<close>

record transfer =
  slept :: int
  rate_duration :: real
  rate_limit :: real
  payload :: string

datatype response =
    NotFound
  | InternalServerError
  | MovedPermanently string
  | ManifestOK manifest
  | SegmentOK transfer
  | FileOK string

text \<open>
  The directory of the playlist: the content of the regular file a relative name opens
  (\<^verbatim>\<open>os.Open\<close> and \<^verbatim>\<open>Stat\<close> succeed), or \<open>None\<close>. Both \<^verbatim>\<open>path.Join(l.baseDir, name)\<close> and
  the file server of \<^verbatim>\<open>main\<close> look a name up in this directory.
\<close>

type_synonym directory = "string \<Rightarrow> string option"

subsection \<open>Case-insensitive comparison\<close>

text \<open>
  \<^verbatim>\<open>strings.EqualFold\<close> belongs to Go's standard library. Its loop takes one rune from each
  string at a time. On two ASCII characters it is modelled as the library's fast path is
  written: equal characters match; otherwise the smaller one must be an upper-case letter
  and the larger one its lower-case form. As soon as a byte beyond ASCII heads either
  string, the answer depends on the Unicode folding tables (under which, for instance, the
  Kelvin sign matches \<^verbatim>\<open>k\<close>); the tables are not part of the sources, so the answer of the
  library on the two remaining strings is the parameter \<open>unicode\<close> of the model.
\<close>

type_synonym folding = "string \<Rightarrow> string \<Rightarrow> bool"

definition fold_match :: "char \<Rightarrow> char \<Rightarrow> bool" where
  "fold_match a b =
     (let sr = min (of_char a) (of_char b) :: nat; tr = max (of_char a) (of_char b) :: nat
      in tr < 128 \<and> 65 \<le> sr \<and> sr \<le> 90 \<and> tr = sr + 32)"

fun EqualFold :: "folding \<Rightarrow> string \<Rightarrow> string \<Rightarrow> bool" where
  "EqualFold unicode [] [] = True"
| "EqualFold unicode [] (b # t) = False"
| "EqualFold unicode (a # s) [] = False"
| "EqualFold unicode (a # s) (b # t) =
     (if 128 \<le> (of_char a :: nat) \<or> 128 \<le> (of_char b :: nat) then unicode (a # s) (b # t)
      else if a = b then EqualFold unicode s t
      else if fold_match a b then EqualFold unicode s t
      else False)"

subsection \<open>ServeSegment\<close>

text \<open>
  The loop of lines 61-69: the first segment whose URI matches, and the sum of the
  durations before it. Running off the end leaves \<^verbatim>\<open>segment\<close> nil.
\<close>

fun find_segment ::
  "folding \<Rightarrow> string \<Rightarrow> MediaSegment option list \<Rightarrow> real
     \<Rightarrow> panic + (MediaSegment option \<times> real)" where
  "find_segment unicode curSegmentURL [] segmentStartTime = Inr (None, segmentStartTime)"
| "find_segment unicode curSegmentURL (None # rest) segmentStartTime =
     Inl NilPointerDereference"
| "find_segment unicode curSegmentURL (Some curSegment # rest) segmentStartTime =
     (if EqualFold unicode (URI curSegment) curSegmentURL
      then Inr (Some curSegment, segmentStartTime)
      else find_segment unicode curSegmentURL rest (segmentStartTime + Duration curSegment))"

text \<open>
  \<^verbatim>\<open>time.Duration(sleepDuration) * time.Second\<close>: the conversion of a \<^verbatim>\<open>float64\<close> to the
  64-bit integer type \<^verbatim>\<open>time.Duration\<close> drops the fraction; the product counts nanoseconds
  and wraps. \<^verbatim>\<open>time.Sleep\<close> returns at once for a duration that is not positive.
\<close>

definition float_to_int :: "real \<Rightarrow> int" where
  "float_to_int x = (if 0 \<le> x then \<lfloor>x\<rfloor> else \<lceil>x\<rceil>)"

definition Second :: "64 word" where
  "Second = 1000000000"

definition Sleep :: "64 word \<Rightarrow> int" where
  "Sleep d = (if sint d \<le> 0 then 0 else sint d)"

text \<open>
  \<open>path\<close> is the escaped path of the request and \<open>now\<close> the instant \<^verbatim>\<open>time.Since\<close> reads on
  line 76. Slicing a path shorter than \<^verbatim>\<open>"/lhls/"\<close> panics.
\<close>

definition ServeSegment ::
  "folding \<Rightarrow> FakeLHLSManifestHandler \<Rightarrow> directory \<Rightarrow> real \<Rightarrow> string
     \<Rightarrow> panic + response" where
  "ServeSegment unicode l dir now path =
     (if length path < length ''/lhls/'' then Inl SliceBoundsOutOfRange
      else
        (let curSegmentURL = drop (length ''/lhls/'') path
         in case dir curSegmentURL of
              None \<Rightarrow> Inr NotFound
            | Some file \<Rightarrow>
                (case find_segment unicode curSegmentURL (Segments (playlist l)) 0 of
                   Inl p \<Rightarrow> Inl p
                 | Inr (None, segmentStartTime) \<Rightarrow> Inr NotFound
                 | Inr (Some segment, segmentStartTime) \<Rightarrow>
                     (let curStreamTime = now - startTime l;
                          waited = (if segmentStartTime > curStreamTime
                                    then Sleep (word_of_int
                                           (float_to_int (segmentStartTime - curStreamTime)) * Second)
                                    else 0);
                          curStreamTime = (if segmentStartTime > curStreamTime
                                           then segmentStartTime else curStreamTime);
                          rateDuration = max (segmentStartTime + Duration segment - curStreamTime) 1;
                          rateLimit = real (length file) / rateDuration
                      in Inr (SegmentOK \<lparr>slept = waited, rate_duration = rateDuration,
                                           rate_limit = rateLimit, payload = file\<rparr>)))))"

subsection \<open>ServeManifest\<close>

text \<open>The variables of the window loop (lines 117-132).\<close>

record window =
  curDuration :: real
  sequence :: int
  curPlaylist :: MediaPlaylist

text \<open>\<^verbatim>\<open>curPlaylist.AppendSegment(segment)\<close> with the returned error dropped.\<close>

definition append_ignoring :: "MediaPlaylist \<Rightarrow> MediaSegment \<Rightarrow> MediaPlaylist" where
  "append_ignoring p seg = (case AppendSegment p seg of Inl e \<Rightarrow> p | Inr p' \<Rightarrow> p')"

fun window_loop ::
  "real \<Rightarrow> real \<Rightarrow> nat \<Rightarrow> MediaSegment option list \<Rightarrow> window \<Rightarrow> panic + window" where
  "window_loop target curStreamTime i [] v = Inr v"
| "window_loop target curStreamTime i (None # rest) v = Inl NilPointerDereference"
| "window_loop target curStreamTime i (Some segment # rest) v =
     (let v = v\<lparr>curDuration := curDuration v + Duration segment\<rparr>;
          v = (if curDuration v + 3 * target > curStreamTime
               then v\<lparr>sequence := (if sequence v = - 1 then int i else sequence v),
                      curPlaylist := append_ignoring (curPlaylist v) segment\<rparr>
               else v)
      in if curDuration v > curStreamTime + futureTime then Inr v
         else window_loop target curStreamTime (Suc i) rest v)"

text \<open>Lines 117-132 as a whole: the loop over \<^verbatim>\<open>l.playlist.Segments\<close> from its initial variables.\<close>

definition run_window :: "MediaPlaylist \<Rightarrow> real \<Rightarrow> MediaPlaylist \<Rightarrow> panic + window" where
  "run_window pl curStreamTime fresh =
     window_loop (TargetDuration pl) curStreamTime 0 (Segments pl)
       \<lparr>curDuration = 0, sequence = - 1, curPlaylist = fresh\<rparr>"

text \<open>
  \<open>now\<close> is the instant read by \<^verbatim>\<open>time.Since\<close> on line 101, \<open>now'\<close> the one read by
  \<^verbatim>\<open>time.Now\<close> on line 114. The result is the response (or the panic) and the handler
  afterwards. \<^verbatim>\<open>uint64(sequence)\<close> is \<^term>\<open>word_of_int\<close>.
\<close>

definition ServeManifest ::
  "FakeLHLSManifestHandler \<Rightarrow> real \<Rightarrow> real \<Rightarrow> (panic + response) \<times> FakeLHLSManifestHandler" where
  "ServeManifest l now now' =
     (let curStreamTime = now - startTime l
      in case NewMediaPlaylist 10 10 of
           Inl err \<Rightarrow> (Inr InternalServerError, l)
         | Inr fresh \<Rightarrow>
             (let reset = (duration l < curStreamTime);
                  curStreamTime = (if reset then 0 else curStreamTime);
                  l = (if reset then l\<lparr>startTime := now'\<rparr> else l)
              in case run_window (playlist l) curStreamTime fresh of
                   Inl p \<Rightarrow> (Inl p, l)
                 | Inr v \<Rightarrow>
                     (Inr (ManifestOK (Encode ((curPlaylist v)\<lparr>SeqNo := word_of_int (sequence v)\<rparr>))),
                      l)))"

subsection \<open>Routing\<close>

text \<open>\<^verbatim>\<open>ServeHTTP\<close> of the handler, on the escaped path of the request.\<close>

definition ServeHTTP ::
  "folding \<Rightarrow> FakeLHLSManifestHandler \<Rightarrow> directory \<Rightarrow> real \<Rightarrow> real \<Rightarrow> string
     \<Rightarrow> (panic + response) \<times> FakeLHLSManifestHandler" where
  "ServeHTTP unicode l dir now now' path =
     (if suffix ''manifest.m3u8'' path then ServeManifest l now now'
      else if prefix ''/lhls/'' path then (ServeSegment unicode l dir now path, l)
      else (Inr NotFound, l))"

text \<open>
  \<^verbatim>\<open>http.StripPrefix("/live/", http.FileServer(http.Dir(dir)))\<close> on a regular file: its
  bytes as they are, or 404. Directory listings and the redirect of \<^verbatim>\<open>index.html\<close> are
  outside the model.
\<close>

definition FileServer :: "directory \<Rightarrow> string \<Rightarrow> response" where
  "FileServer dir name = (case dir name of None \<Rightarrow> NotFound | Some file \<Rightarrow> FileOK file)"

text \<open>
  The multiplexer \<^verbatim>\<open>main\<close> builds (lines 189-195), on a clean path: a pattern without a
  trailing slash matches that path only, a pattern with one matches every path below it,
  and the longest matching pattern wins; a subtree's root without its slash is redirected.
\<close>

definition mux ::
  "folding \<Rightarrow> FakeLHLSManifestHandler \<Rightarrow> directory \<Rightarrow> real \<Rightarrow> real \<Rightarrow> string
     \<Rightarrow> (panic + response) \<times> FakeLHLSManifestHandler" where
  "mux unicode l dir now now' path =
     (if path = ''/live/manifest.m3u8'' then ServeHTTP unicode l dir now now' path
      else if path = ''/lhls/manifest.m3u8'' then ServeHTTP unicode l dir now now' path
      else if prefix ''/live/'' path
        then (Inr (FileServer dir (drop (length ''/live/'') path)), l)
      else if prefix ''/lhls/'' path then ServeHTTP unicode l dir now now' path
      else if path = ''/live'' then (Inr (MovedPermanently ''/live/''), l)
      else if path = ''/lhls'' then (Inr (MovedPermanently ''/lhls/''), l)
      else (Inr NotFound, l))"

text \<open>
  The handler \<^verbatim>\<open>main\<close> registers: the anchor is the instant of start-up, the duration the
  sum over the segments that are not nil (lines 168-177).
\<close>

fun total_duration :: "MediaSegment option list \<Rightarrow> real" where
  "total_duration [] = 0"
| "total_duration (None # rest) = total_duration rest"
| "total_duration (Some segment # rest) = Duration segment + total_duration rest"

definition new_handler :: "MediaPlaylist \<Rightarrow> string \<Rightarrow> real \<Rightarrow> FakeLHLSManifestHandler" where
  "new_handler mediapl dir now =
     \<lparr>startTime = now, duration = total_duration (Segments mediapl), playlist = mediapl,
      baseDir = dir\<rparr>"

section \<open>Notions the properties are stated with\<close>

text \<open>
  The nominal start offset of the segment at index \<open>k\<close>: the sum of the durations before it.
  \<open>start_offset segs (Suc k)\<close> is the value of \<^verbatim>\<open>curDuration\<close> once the window loop has
  added segment \<open>k\<close>.
\<close>

definition start_offset :: "MediaSegment list \<Rightarrow> nat \<Rightarrow> real" where
  "start_offset segs k = sum_list (map Duration (take k segs))"

text \<open>
  The window rule in the specification's words, without any bound on the output: walk the
  segments, add each duration to the cursor, include the segment when
  \<open>cursor + 3 * target > elapsed\<close>, stop once \<open>cursor > elapsed + 5\<close>. \<open>rule_sequence\<close> is the
  index of the first included segment, or the sentinel -1.
\<close>

fun rule_window :: "real \<Rightarrow> real \<Rightarrow> real \<Rightarrow> MediaSegment list \<Rightarrow> MediaSegment list" where
  "rule_window target elapsed cursor [] = []"
| "rule_window target elapsed cursor (s # rest) =
     (if cursor + Duration s + 3 * target > elapsed then [s] else []) @
     (if cursor + Duration s > elapsed + 5 then []
      else rule_window target elapsed (cursor + Duration s) rest)"

fun rule_sequence :: "real \<Rightarrow> real \<Rightarrow> real \<Rightarrow> nat \<Rightarrow> MediaSegment list \<Rightarrow> int" where
  "rule_sequence target elapsed cursor i [] = - 1"
| "rule_sequence target elapsed cursor i (s # rest) =
     (if cursor + Duration s + 3 * target > elapsed then int i
      else if cursor + Duration s > elapsed + 5 then - 1
      else rule_sequence target elapsed (cursor + Duration s) (Suc i) rest)"

text \<open>The stream time the window of a manifest request is computed for (lines 101-115).\<close>

definition effective_time :: "FakeLHLSManifestHandler \<Rightarrow> real \<Rightarrow> real" where
  "effective_time l now = (if duration l < now - startTime l then 0 else now - startTime l)"

text \<open>The stream time a segment's rate is computed for: lines 76-83, without the sleep.\<close>

definition stream_time :: "real \<Rightarrow> real \<Rightarrow> real" where
  "stream_time elapsed startOffset = (if startOffset > elapsed then startOffset else elapsed)"

text \<open>
  Text within ASCII, and two strings that differ at most in the case of their ASCII
  letters.
\<close>

definition ascii :: "string \<Rightarrow> bool" where
  "ascii s \<longleftrightarrow> list_all (\<lambda>c. (of_char c :: nat) < 128) s"

definition ascii_lower :: "char \<Rightarrow> char" where
  "ascii_lower c =
     (if 65 \<le> (of_char c :: nat) \<and> (of_char c :: nat) \<le> 90
      then char_of (of_char c + 32 :: nat) else c)"

definition same_up_to_case :: "string \<Rightarrow> string \<Rightarrow> bool" where
  "same_up_to_case s t \<longleftrightarrow> map ascii_lower s = map ascii_lower t"

text \<open>A playlist under construction whose appended segments are \<open>xs\<close>, in this order.\<close>

definition filled :: "MediaPlaylist \<Rightarrow> MediaSegment list \<Rightarrow> bool" where
  "filled p xs \<longleftrightarrow>
     count p = length xs \<and> length xs \<le> capacity p \<and> length (Segments p) = capacity p \<and>
     take (length xs) (Segments p) = map Some xs"

section \<open>Concrete playlists\<close>

text \<open>
  Modelled from the spec: \<^verbatim>\<open>m3u8.DecodeFrom\<close> (line 153) belongs to the library as well;
  the specification says only that the playlist is loaded once, before the first request.
  The decoder allocates the slice \<^verbatim>\<open>Segments\<close> with 1024 slots and fills them from the first
  on, so for a playlist of at most 1024 segments \<^verbatim>\<open>main\<close> receives the segments in order and
  nil in every slot after the last one. \<^verbatim>\<open>main\<close> skips the nil entries when it sums the
  durations (lines 169-170).
\<close>

definition decoded :: "real \<Rightarrow> MediaSegment list \<Rightarrow> MediaPlaylist" where
  "decoded target segs =
     \<lparr>TargetDuration = target, SeqNo = 0,
      Segments = map Some segs @ replicate (1024 - length segs) None, winsize = 0,
      capacity = 1024, count = length segs\<rparr>"

text \<open>
  A stand-in for the Unicode tables where every name is ASCII and the tables are never
  consulted: beyond ASCII, only equal text matches.
\<close>

definition exact_beyond_ascii :: folding where
  "exact_beyond_ascii s t \<longleftrightarrow> s = t"

text \<open>The playlist returned by \<^verbatim>\<open>NewMediaPlaylist(10, 10)\<close>.\<close>

definition blank :: MediaPlaylist where
  "blank = \<lparr>TargetDuration = 0, SeqNo = 0, Segments = replicate 10 None, winsize = 10,
            capacity = 10, count = 0\<rparr>"

text \<open>Three segments of 10 seconds, target duration 10, started at instant 0.\<close>

definition three_segs :: "MediaSegment list" where
  "three_segs =
     [\<lparr>URI = ''seg000.ts'', Duration = 10\<rparr>, \<lparr>URI = ''seg001.ts'', Duration = 10\<rparr>,
      \<lparr>URI = ''seg002.ts'', Duration = 10\<rparr>]"

definition three :: FakeLHLSManifestHandler where
  "three = new_handler (decoded 10 three_segs) ''.'' 0"

definition three_files :: directory where
  "three_files name = (if name \<in> set (map URI three_segs) then Some ''0123456789'' else None)"

text \<open>Directories that hold segment 1 under its stored name only, and under both spellings.\<close>

definition lower_case_only :: directory where
  "lower_case_only name = (if name = ''seg001.ts'' then Some ''0123456789'' else None)"

definition upper_case_too :: directory where
  "upper_case_too name =
     (if name = ''seg001.ts'' \<or> name = ''SEG001.ts'' then Some ''0123456789'' else None)"

text \<open>Twelve segments of one second, target duration 10.\<close>

definition twelve_segs :: "MediaSegment list" where
  "twelve_segs = map (\<lambda>u. \<lparr>URI = u, Duration = 1\<rparr>)
     [''s00.ts'', ''s01.ts'', ''s02.ts'', ''s03.ts'', ''s04.ts'', ''s05.ts'',
      ''s06.ts'', ''s07.ts'', ''s08.ts'', ''s09.ts'', ''s10.ts'', ''s11.ts'']"

definition twelve :: FakeLHLSManifestHandler where
  "twelve = new_handler (decoded 10 twelve_segs) ''.'' 0"

text \<open>The twelve segments again, under the target duration 1.\<close>

definition twelve_short :: FakeLHLSManifestHandler where
  "twelve_short = new_handler (decoded 1 twelve_segs) ''.'' 0"

text \<open>The three segments again, under a playlist that declares the target duration -2.\<close>

definition negative_target :: MediaPlaylist where
  "negative_target = decoded (- 2) three_segs"

text \<open>A playlist without segments, and one segment of 10 seconds under target duration 0.\<close>

definition no_segments :: FakeLHLSManifestHandler where
  "no_segments = new_handler (decoded 10 []) ''.'' 0"

definition one_segment :: FakeLHLSManifestHandler where
  "one_segment = new_handler (decoded 0 [\<lparr>URI = ''only.ts'', Duration = 10\<rparr>]) ''.'' 0"

section \<open>The playlist under construction\<close>

lemma present_map_Some: "present (map Some xs) = xs"
  by (induction xs) simp_all

lemma take_take_append: "take n (take n a @ b) = take n (a @ b)"
  by (cases "length a \<le> n") (simp_all add: take_all)

lemma filled_new: "w \<le> c \<Longrightarrow> NewMediaPlaylist w c = Inr p \<Longrightarrow> filled p [] \<and> capacity p = c \<and> winsize p = w"
  by (auto simp: NewMediaPlaylist_def filled_def)

lemma filled_append:
  assumes "filled p xs"
  shows "filled (append_ignoring p x) (take (capacity p) (xs @ [x]))"
    and "capacity (append_ignoring p x) = capacity p"
    and "winsize (append_ignoring p x) = winsize p"
proof -
  show "capacity (append_ignoring p x) = capacity p" "winsize (append_ignoring p x) = winsize p"
    by (simp_all add: append_ignoring_def AppendSegment_def)
  show "filled (append_ignoring p x) (take (capacity p) (xs @ [x]))"
  proof (cases "capacity p \<le> count p")
    case True
    with assms have "length xs = capacity p"
      by (simp add: filled_def)
    then have "take (capacity p) (xs @ [x]) = xs"
      by simp
    with True assms show ?thesis
      by (simp add: append_ignoring_def AppendSegment_def)
  next
    case False
    with assms have "take (Suc (length xs)) ((Segments p)[length xs := Some x]) = map Some (xs @ [x])"
      by (simp add: filled_def take_Suc_conv_app_nth)
    moreover from False assms have "take (capacity p) (xs @ [x]) = xs @ [x]"
      by (simp add: filled_def)
    ultimately show ?thesis
      using False assms by (simp add: append_ignoring_def AppendSegment_def filled_def)
  qed
qed

lemma Encode_filled:
  "filled p xs \<Longrightarrow> Encode (p\<lparr>SeqNo := n\<rparr>) =
     \<lparr>m_SeqNo = n, m_Segments = (if winsize p = 0 then xs else take (winsize p) xs)\<rparr>"
  by (simp add: Encode_def filled_def present_map_Some)

lemma window_loop_Some:
  assumes "filled (curPlaylist v) ys"
  shows "\<exists>v'. window_loop T t i (map Some xs) v = Inr v' \<and>
           filled (curPlaylist v')
             (take (capacity (curPlaylist v)) (ys @ rule_window T t (curDuration v) xs)) \<and>
           capacity (curPlaylist v') = capacity (curPlaylist v) \<and>
           winsize (curPlaylist v') = winsize (curPlaylist v) \<and>
           sequence v' = (if sequence v = - 1 then rule_sequence T t (curDuration v) i xs
                          else sequence v)"
  using assms
proof (induction xs arbitrary: v i ys)
  case Nil
  then show ?case by (simp add: filled_def)
next
  case (Cons x xs)
  let ?c = "curDuration v + Duration x"
  show ?case
  proof (cases "?c + 3 * T > t")
    case True
    let ?v = "v\<lparr>curDuration := ?c, sequence := (if sequence v = - 1 then int i else sequence v),
                 curPlaylist := append_ignoring (curPlaylist v) x\<rparr>"
    have f: "filled (curPlaylist ?v) (take (capacity (curPlaylist v)) (ys @ [x]))"
      using filled_append(1)[OF Cons.prems] by simp
    have c: "capacity (curPlaylist ?v) = capacity (curPlaylist v)" "winsize (curPlaylist ?v) = winsize (curPlaylist v)"
      using filled_append(2,3)[OF Cons.prems] by simp_all
    show ?thesis
    proof (cases "?c > t + futureTime")
      case b: True
      with True f c show ?thesis
        by (simp add: futureTime_def Let_def)
    next
      case b: False
      from Cons.IH[OF f, of "Suc i"] c
      obtain v' where v': "window_loop T t (Suc i) (map Some xs) ?v = Inr v'"
        "filled (curPlaylist v') (take (capacity (curPlaylist v)) (take (capacity (curPlaylist v)) (ys @ [x]) @ rule_window T t ?c xs))"
        "capacity (curPlaylist v') = capacity (curPlaylist v)"
        "winsize (curPlaylist v') = winsize (curPlaylist v)"
        "sequence v' = sequence ?v"
        by (auto split: if_splits simp del: take_append)
      with True b show ?thesis
        by (cases "sequence v = - 1")
          (simp_all add: futureTime_def Let_def take_take_append del: take_append)
    qed
  next
    case False
    let ?v = "v\<lparr>curDuration := ?c\<rparr>"
    show ?thesis
    proof (cases "?c > t + futureTime")
      case b: True
      with False Cons.prems show ?thesis
        by (simp add: futureTime_def Let_def filled_def)
    next
      case b: False
      have f: "filled (curPlaylist ?v) ys" using Cons.prems by simp
      from Cons.IH[OF f, of "Suc i"]
      obtain v' where v': "window_loop T t (Suc i) (map Some xs) ?v = Inr v'"
        "filled (curPlaylist v') (take (capacity (curPlaylist v)) (ys @ rule_window T t ?c xs))"
        "capacity (curPlaylist v') = capacity (curPlaylist v)"
        "winsize (curPlaylist v') = winsize (curPlaylist v)"
        "sequence v' = (if sequence v = - 1 then rule_sequence T t ?c (Suc i) xs else sequence v)"
        by auto
      with False b show ?thesis
        by (simp add: futureTime_def Let_def)
    qed
  qed
qed

section \<open>Start offsets and the window rule\<close>

lemma start_offset_0: "start_offset xs 0 = 0"
  by (simp add: start_offset_def)

lemma start_offset_Cons: "start_offset (x # xs) (Suc k) = Duration x + start_offset xs k"
  by (simp add: start_offset_def)

lemma start_offset_nonneg:
  "\<forall>x\<in>set xs. 0 < Duration x \<Longrightarrow> 0 \<le> start_offset xs k"
proof (induction xs arbitrary: k)
  case Nil
  then show ?case by (simp add: start_offset_def)
next
  case (Cons x xs)
  then have "0 \<le> start_offset xs j" for j by simp
  with Cons.prems show ?case
    by (cases k) (simp_all add: start_offset_0 start_offset_Cons add_nonneg_nonneg)
qed

lemma rule_window_prefix:
  assumes "\<forall>k<length xs. t < c + start_offset xs (Suc k) + 3 * T"
  shows "\<exists>n\<le>length xs. rule_window T t c xs = take n xs \<and>
           (\<forall>k<length xs. k < n \<longleftrightarrow> (\<forall>j<k. c + start_offset xs (Suc j) \<le> t + 5))"
  using assms
proof (induction xs arbitrary: c)
  case Nil
  then show ?case by simp
next
  case (Cons x xs)
  let ?c = "c + Duration x"
  from Cons.prems have q: "t < ?c + 3 * T"
    by (simp add: All_less_Suc2 start_offset_Cons start_offset_0)
  from Cons.prems have later: "\<forall>k<length xs. t < ?c + start_offset xs (Suc k) + 3 * T"
    by (simp add: All_less_Suc2 start_offset_Cons add.assoc)
  show ?case
  proof (cases "?c > t + 5")
    case True
    with q have "rule_window T t c (x # xs) = take 1 (x # xs)"
      by simp
    moreover from True have "\<forall>k<length (x # xs). k < 1 \<longleftrightarrow> (\<forall>j<k. c + start_offset (x # xs) (Suc j) \<le> t + 5)"
      by (auto simp: All_less_Suc2 start_offset_Cons start_offset_0 less_Suc_eq_0_disj)
    ultimately show ?thesis
      by (intro exI[of _ 1]) simp
  next
    case False
    from Cons.IH[OF later] obtain n where n: "n \<le> length xs" "rule_window T t ?c xs = take n xs"
      "\<forall>k<length xs. k < n \<longleftrightarrow> (\<forall>j<k. ?c + start_offset xs (Suc j) \<le> t + 5)"
      by auto
    from q False n(2) have "rule_window T t c (x # xs) = take (Suc n) (x # xs)"
      by simp
    moreover from False n(3) have "\<forall>k<length (x # xs). k < Suc n \<longleftrightarrow> (\<forall>j<k. c + start_offset (x # xs) (Suc j) \<le> t + 5)"
      by (simp add: All_less_Suc2 start_offset_Cons start_offset_0 add.assoc)
    ultimately show ?thesis
      using n(1) by (intro exI[of _ "Suc n"]) simp
  qed
qed

lemma rule_window_run:
  assumes "\<forall>x\<in>set xs. 0 < Duration x"
  shows "\<exists>a n. a + n \<le> length xs \<and> rule_window T t c xs = take n (drop a xs) \<and>
           (\<forall>k<length xs. (a \<le> k \<and> k < a + n) \<longleftrightarrow>
              ((\<forall>j<k. c + start_offset xs (Suc j) \<le> t + 5) \<and>
               t < c + start_offset xs (Suc k) + 3 * T))"
  using assms
proof (induction xs arbitrary: c)
  case Nil
  then show ?case by simp
next
  case (Cons x xs)
  let ?c = "c + Duration x"
  from Cons.prems have pos: "\<forall>x\<in>set xs. 0 < Duration x" by simp
  show ?case
  proof (cases "t < ?c + 3 * T")
    case q: True
    have later: "\<forall>k<length (x # xs). t < c + start_offset (x # xs) (Suc k) + 3 * T"
    proof (intro allI impI)
      fix k
      show "t < c + start_offset (x # xs) (Suc k) + 3 * T"
        using start_offset_nonneg[OF pos, of k] q by (simp add: start_offset_Cons)
    qed
    from rule_window_prefix[OF later] obtain n where n: "n \<le> length (x # xs)"
      "rule_window T t c (x # xs) = take n (x # xs)"
      "\<forall>k<length (x # xs). k < n \<longleftrightarrow> (\<forall>j<k. c + start_offset (x # xs) (Suc j) \<le> t + 5)"
      by blast
    from n(3) later have "\<forall>k<length (x # xs). (0 \<le> k \<and> k < 0 + n) \<longleftrightarrow>
              ((\<forall>j<k. c + start_offset (x # xs) (Suc j) \<le> t + 5) \<and>
               t < c + start_offset (x # xs) (Suc k) + 3 * T)"
      by simp
    with n(1,2) show ?thesis
      by (intro exI[of _ 0] exI[of _ n]) simp
  next
    case q: False
    show ?thesis
    proof (cases "?c > t + 5")
      case True
      with q have "rule_window T t c (x # xs) = take 0 (drop 0 (x # xs))"
        by simp
      moreover from True q have "\<forall>k<length (x # xs). (0 \<le> k \<and> k < 0 + 0) \<longleftrightarrow>
              ((\<forall>j<k. c + start_offset (x # xs) (Suc j) \<le> t + 5) \<and>
               t < c + start_offset (x # xs) (Suc k) + 3 * T)"
        by (simp add: All_less_Suc2 Ex_less_Suc2 start_offset_Cons start_offset_0)
      ultimately show ?thesis
        by (intro exI[of _ 0]) simp
    next
      case False
      from Cons.IH[OF pos, of ?c] obtain a n where an: "a + n \<le> length xs"
        "rule_window T t ?c xs = take n (drop a xs)"
        "\<forall>k<length xs. (a \<le> k \<and> k < a + n) \<longleftrightarrow>
              ((\<forall>j<k. ?c + start_offset xs (Suc j) \<le> t + 5) \<and>
               t < ?c + start_offset xs (Suc k) + 3 * T)"
        by blast
      from q False an(2) have "rule_window T t c (x # xs) = take n (drop (Suc a) (x # xs))"
        by simp
      moreover from q False an(3) have "\<forall>k<length (x # xs). (Suc a \<le> k \<and> k < Suc a + n) \<longleftrightarrow>
              ((\<forall>j<k. c + start_offset (x # xs) (Suc j) \<le> t + 5) \<and>
               t < c + start_offset (x # xs) (Suc k) + 3 * T)"
        by (simp add: All_less_Suc2 start_offset_Cons start_offset_0 add.assoc)
      ultimately show ?thesis
        using an(1) by (intro exI[of _ "Suc a"] exI[of _ n]) simp
    qed
  qed
qed

lemma rule_none:
  assumes "\<forall>k<length xs. c + start_offset xs (Suc k) + 3 * T \<le> t"
  shows "rule_window T t c xs = [] \<and> rule_sequence T t c i xs = - 1"
  using assms
proof (induction xs arbitrary: c i)
  case Nil
  then show ?case by simp
next
  case (Cons x xs)
  from Cons.prems have q: "\<not> t < c + Duration x + 3 * T"
    by (simp add: All_less_Suc2 start_offset_Cons start_offset_0)
  from Cons.prems have "\<forall>k<length xs. c + Duration x + start_offset xs (Suc k) + 3 * T \<le> t"
    by (simp add: All_less_Suc2 start_offset_Cons add.assoc)
  from Cons.IH[OF this] q show ?case
    by simp
qed

lemma rule_sequence_found:
  assumes "\<forall>x\<in>set xs. 0 < Duration x" and "0 \<le> T" and "c \<le> t"
    and "t < c + start_offset xs (length xs)"
  shows "int i \<le> rule_sequence T t c i xs"
  using assms
proof (induction xs arbitrary: c i)
  case Nil
  then show ?case by (simp add: start_offset_def)
next
  case (Cons x xs)
  show ?case
  proof (cases "t < c + Duration x + 3 * T")
    case True
    then show ?thesis by simp
  next
    case False
    with Cons.prems(2) have le: "c + Duration x \<le> t" and nb: "\<not> t + 5 < c + Duration x"
      by simp_all
    from Cons.prems have "t < c + Duration x + start_offset xs (length xs)"
      by (simp add: start_offset_Cons)
    from Cons.IH[OF _ Cons.prems(2) le this, of "Suc i"] Cons.prems(1) False nb
    show ?thesis by simp
  qed
qed

lemma rule_sequence_mono:
  assumes "\<forall>x\<in>set xs. 0 < Duration x" and "0 \<le> T" and "c \<le> t1" and "t1 \<le> t2"
    and "t2 < c + start_offset xs (length xs)"
  shows "rule_sequence T t1 c i xs \<le> rule_sequence T t2 c i xs"
  using assms
proof (induction xs arbitrary: c i)
  case Nil
  then show ?case by simp
next
  case (Cons x xs)
  show ?case
  proof (cases "t1 < c + Duration x + 3 * T")
    case True
    from Cons.prems have "c \<le> t2" by simp
    from rule_sequence_found[OF Cons.prems(1,2) this Cons.prems(5), of i] True
    show ?thesis by simp
  next
    case False
    with Cons.prems(2,4) have le: "c + Duration x \<le> t1"
      and nq: "\<not> t2 < c + Duration x + 3 * T"
      and nb: "\<not> t1 + 5 < c + Duration x" "\<not> t2 + 5 < c + Duration x"
      by simp_all
    from Cons.prems have "t2 < c + Duration x + start_offset xs (length xs)"
      by (simp add: start_offset_Cons)
    from Cons.IH[OF _ Cons.prems(2) le Cons.prems(4) this, of "Suc i"] Cons.prems(1) False nq nb
    show ?thesis by simp
  qed
qed

section \<open>The manifest handler\<close>

lemma total_duration_Some: "total_duration (map Some segs) = start_offset segs (length segs)"
  by (induction segs) (simp_all add: start_offset_def)

lemma total_duration_nil: "total_duration (ps @ replicate pad None) = total_duration ps"
proof (induction ps rule: total_duration.induct)
  case 1
  show ?case by (induction pad) simp_all
qed simp_all

lemma window_loop_step:
  "window_loop T t i (Some segment # ps) v =
     (if curDuration v + Duration segment > t + futureTime
      then Inr (if curDuration v + Duration segment + 3 * T > t
              then v\<lparr>curDuration := curDuration v + Duration segment,
                     sequence := (if sequence v = - 1 then int i else sequence v),
                     curPlaylist := append_ignoring (curPlaylist v) segment\<rparr>
              else v\<lparr>curDuration := curDuration v + Duration segment\<rparr>)
      else window_loop T t (Suc i) ps
             (if curDuration v + Duration segment + 3 * T > t
              then v\<lparr>curDuration := curDuration v + Duration segment,
                     sequence := (if sequence v = - 1 then int i else sequence v),
                     curPlaylist := append_ignoring (curPlaylist v) segment\<rparr>
              else v\<lparr>curDuration := curDuration v + Duration segment\<rparr>))"
  by (simp add: Let_def)

lemma window_loop_invariant:
  assumes "window_loop T t i ps v = Inr v'" and "filled (curPlaylist v) ys"
    and "0 < capacity (curPlaylist v)" and "sequence v = - 1 \<longleftrightarrow> ys = []"
  shows "\<exists>zs. filled (curPlaylist v') zs \<and> capacity (curPlaylist v') = capacity (curPlaylist v)
            \<and> winsize (curPlaylist v') = winsize (curPlaylist v)
            \<and> (sequence v' = - 1 \<longleftrightarrow> zs = [])"
  using assms
proof (induction ps arbitrary: v i ys)
  case Nil
  then show ?case by auto
next
  case (Cons p ps)
  show ?case
  proof (cases p)
    case None
    with Cons.prems(1) show ?thesis by simp
  next
    case (Some segment)
    let ?c = "curDuration v + Duration segment"
    let ?v = "if ?c + 3 * T > t
              then v\<lparr>curDuration := ?c, sequence := (if sequence v = - 1 then int i else sequence v),
                     curPlaylist := append_ignoring (curPlaylist v) segment\<rparr>
              else v\<lparr>curDuration := ?c\<rparr>"
    let ?zs = "if ?c + 3 * T > t then take (capacity (curPlaylist v)) (ys @ [segment]) else ys"
    have f: "filled (curPlaylist ?v) ?zs" "capacity (curPlaylist ?v) = capacity (curPlaylist v)"
      "winsize (curPlaylist ?v) = winsize (curPlaylist v)"
      using filled_append[OF Cons.prems(2), of segment] Cons.prems(2) by auto
    from Cons.prems(3) have "take (capacity (curPlaylist v)) (ys @ [segment]) \<noteq> []"
      by simp
    with Cons.prems(4) have s: "sequence ?v = - 1 \<longleftrightarrow> ?zs = []"
      by auto
    from f(2) Cons.prems(3) have c: "0 < capacity (curPlaylist ?v)"
      by simp
    show ?thesis
    proof (cases "?c > t + futureTime")
      case True
      with Cons.prems(1)[unfolded Some window_loop_step] have "v' = ?v"
        by simp
      with f s show ?thesis by blast
    next
      case False
      with Cons.prems(1)[unfolded Some window_loop_step]
      have run: "window_loop T t (Suc i) ps ?v = Inr v'"
        by simp
      from Cons.IH[OF run f(1) c s] f(2,3)
      show ?thesis by auto
    qed
  qed
qed

text \<open>
  A tail after the segments is not reached when the loop breaks among them; and a loop that
  returns on a slice with a nil tail has not reached the tail.
\<close>

lemma window_loop_break:
  assumes "\<exists>k<length xs. curDuration v + start_offset xs (Suc k) > t + futureTime"
  shows "window_loop T t i (map Some xs @ rest) v = window_loop T t i (map Some xs) v"
  using assms
proof (induction xs arbitrary: v i)
  case Nil
  then show ?case by simp
next
  case (Cons x xs)
  let ?c = "curDuration v + Duration x"
  let ?v = "if ?c + 3 * T > t
            then v\<lparr>curDuration := ?c, sequence := (if sequence v = - 1 then int i else sequence v),
                   curPlaylist := append_ignoring (curPlaylist v) x\<rparr>
            else v\<lparr>curDuration := ?c\<rparr>"
  show ?case
  proof (cases "?c > t + futureTime")
    case True
    then show ?thesis
      by (simp add: window_loop_step del: window_loop.simps)
  next
    case False
    with Cons.prems have "\<exists>k<length xs. curDuration ?v + start_offset xs (Suc k) > t + futureTime"
      by (auto simp: Ex_less_Suc2 start_offset_Cons start_offset_0 add.assoc)
    from Cons.IH[OF this, of "Suc i"] False show ?thesis
      by (simp add: window_loop_step del: window_loop.simps)
  qed
qed

lemma window_loop_returned:
  assumes "window_loop T t i (map Some xs @ replicate pad None) v = Inr v'"
  shows "window_loop T t i (map Some xs) v = Inr v'"
  using assms
proof (induction xs arbitrary: v i)
  case Nil
  then show ?case by (cases pad) simp_all
next
  case (Cons x xs)
  let ?c = "curDuration v + Duration x"
  let ?v = "if ?c + 3 * T > t
            then v\<lparr>curDuration := ?c, sequence := (if sequence v = - 1 then int i else sequence v),
                   curPlaylist := append_ignoring (curPlaylist v) x\<rparr>
            else v\<lparr>curDuration := ?c\<rparr>"
  show ?case
  proof (cases "?c > t + futureTime")
    case True
    with Cons.prems show ?thesis
      by (simp add: window_loop_step del: window_loop.simps)
  next
    case False
    with Cons.prems have "window_loop T t (Suc i) (map Some xs @ replicate pad None) ?v = Inr v'"
      by (simp add: window_loop_step del: window_loop.simps)
    from Cons.IH[OF this] False show ?thesis
      by (simp add: window_loop_step del: window_loop.simps)
  qed
qed

lemma new_playlist: "NewMediaPlaylist 10 10 = Inr blank"
  by (simp add: NewMediaPlaylist_def blank_def)

lemma filled_blank: "filled blank []" "capacity blank = 10" "winsize blank = 10"
  using filled_new[OF _ new_playlist] by simp_all

lemma ServeManifest_run:
  "fst (ServeManifest l now now') =
     (case run_window (playlist l) (effective_time l now) blank of
        Inl p \<Rightarrow> Inl p
      | Inr v \<Rightarrow> Inr (ManifestOK (Encode ((curPlaylist v)\<lparr>SeqNo := word_of_int (sequence v)\<rparr>))))"
  by (cases "duration l < now - startTime l")
    (simp_all add: ServeManifest_def Let_def new_playlist effective_time_def split: sum.splits)

lemma ServeManifest_handler:
  "snd (ServeManifest l now now') =
     (if duration l < now - startTime l then l\<lparr>startTime := now'\<rparr> else l)"
  by (cases "duration l < now - startTime l")
    (simp_all add: ServeManifest_def Let_def new_playlist split: sum.splits)

text \<open>The run of the loop on the segments alone follows the window rule, cut at ten.\<close>

lemma run_window_Some:
  "\<exists>v. window_loop T t 0 (map Some segs) \<lparr>curDuration = 0, sequence = - 1, curPlaylist = blank\<rparr>
          = Inr v \<and>
        filled (curPlaylist v) (take 10 (rule_window T t 0 segs)) \<and>
        winsize (curPlaylist v) = 10 \<and>
        sequence v = rule_sequence T t 0 0 segs"
proof -
  let ?v = "\<lparr>curDuration = 0, sequence = - 1, curPlaylist = blank\<rparr>"
  from filled_blank(1) have "filled (curPlaylist ?v) []" by simp
  from window_loop_Some[OF this, of T t 0 segs] filled_blank(2,3)
  show ?thesis
    by auto
qed

lemma run_window_rule:
  assumes "Segments pl = map Some segs @ replicate pad None"
    and "run_window pl t blank = Inr v"
  shows "Encode ((curPlaylist v)\<lparr>SeqNo := word_of_int (sequence v)\<rparr>) =
           \<lparr>m_SeqNo = word_of_int (rule_sequence (TargetDuration pl) t 0 0 segs),
            m_Segments = take 10 (rule_window (TargetDuration pl) t 0 segs)\<rparr>"
    and "sequence v = rule_sequence (TargetDuration pl) t 0 0 segs"
proof -
  from assms have "window_loop (TargetDuration pl) t 0 (map Some segs)
      \<lparr>curDuration = 0, sequence = - 1, curPlaylist = blank\<rparr> = Inr v"
    by (simp add: run_window_def window_loop_returned)
  with run_window_Some[of "TargetDuration pl" t segs]
  have v: "filled (curPlaylist v) (take 10 (rule_window (TargetDuration pl) t 0 segs))"
    "winsize (curPlaylist v) = 10"
    "sequence v = rule_sequence (TargetDuration pl) t 0 0 segs"
    by auto
  from v(3) show "sequence v = rule_sequence (TargetDuration pl) t 0 0 segs" .
  from Encode_filled[OF v(1), of "word_of_int (sequence v)"] v(2,3)
  show "Encode ((curPlaylist v)\<lparr>SeqNo := word_of_int (sequence v)\<rparr>) =
           \<lparr>m_SeqNo = word_of_int (rule_sequence (TargetDuration pl) t 0 0 segs),
            m_Segments = take 10 (rule_window (TargetDuration pl) t 0 segs)\<rparr>"
    by simp
qed

lemma run_window_returns:
  assumes "Segments pl = map Some segs @ rest"
    and "rest = [] \<or> (\<exists>k<length segs. start_offset segs (Suc k) > t + futureTime)"
  shows "\<exists>v. run_window pl t blank = Inr v"
proof -
  let ?v = "\<lparr>curDuration = 0, sequence = - 1, curPlaylist = blank\<rparr>"
  have "window_loop (TargetDuration pl) t 0 (map Some segs @ rest) ?v =
          window_loop (TargetDuration pl) t 0 (map Some segs) ?v"
  proof (cases "rest = []")
    case True
    then show ?thesis by simp
  next
    case False
    with assms(2) have "\<exists>k<length segs. curDuration ?v + start_offset segs (Suc k) > t + futureTime"
      by simp
    then show ?thesis by (rule window_loop_break)
  qed
  with run_window_Some[of "TargetDuration pl" t segs] assms(1) show ?thesis
    by (auto simp: run_window_def)
qed

lemma ServeManifest_rule:
  assumes "Segments (playlist l) = map Some segs @ replicate pad None"
    and "fst (ServeManifest l now now') = Inr r"
  shows "r = ManifestOK
           \<lparr>m_SeqNo = word_of_int
              (rule_sequence (TargetDuration (playlist l)) (effective_time l now) 0 0 segs),
            m_Segments =
              take 10 (rule_window (TargetDuration (playlist l)) (effective_time l now) 0 segs)\<rparr>"
proof -
  from assms(2) obtain v where v: "run_window (playlist l) (effective_time l now) blank = Inr v"
    and r: "r = ManifestOK (Encode ((curPlaylist v)\<lparr>SeqNo := word_of_int (sequence v)\<rparr>))"
    unfolding ServeManifest_run by (auto split: sum.splits)
  from run_window_rule(1)[OF assms(1) v] r show ?thesis
    by simp
qed

lemma ServeManifest_produced:
  assumes "Segments (playlist l) = map Some segs @ rest"
    and "rest = [] \<or>
         (\<exists>k<length segs. start_offset segs (Suc k) > effective_time l now + futureTime)"
  shows "\<exists>r. fst (ServeManifest l now now') = Inr r"
  using run_window_returns[OF assms] unfolding ServeManifest_run by auto

text \<open>On every playlist: what holds of a manifest whenever one is produced.\<close>

lemma ServeManifest_returns:
  assumes "fst (ServeManifest l now now') = Inr r"
  shows "\<exists>m. r = ManifestOK m \<and> length (m_Segments m) \<le> 10 \<and>
           (m_Segments m = [] \<longrightarrow> m_SeqNo m = - 1)"
proof -
  from assms obtain v where v: "run_window (playlist l) (effective_time l now) blank = Inr v"
    and r: "r = ManifestOK (Encode ((curPlaylist v)\<lparr>SeqNo := word_of_int (sequence v)\<rparr>))"
    unfolding ServeManifest_run by (auto split: sum.splits)
  let ?v = "\<lparr>curDuration = 0, sequence = - 1, curPlaylist = blank\<rparr>"
  from filled_blank have "filled (curPlaylist ?v) []" "0 < capacity (curPlaylist ?v)"
    "sequence ?v = - 1 \<longleftrightarrow> ([]::MediaSegment list) = []"
    by simp_all
  from window_loop_invariant[OF v[unfolded run_window_def] this] filled_blank(2,3)
  obtain zs where zs: "filled (curPlaylist v) zs" "winsize (curPlaylist v) = 10"
    "sequence v = - 1 \<longleftrightarrow> zs = []"
    by auto
  from Encode_filled[OF zs(1), of "word_of_int (sequence v)"] zs(2,3) r
  show ?thesis by auto
qed

text \<open>
  A nil entry reached before the stop check fires ends the request in a panic: \<^verbatim>\<open>main\<close> skips
  nil entries when it sums the durations, the loop of \<open>ServeManifest\<close> does not.
\<close>

lemma window_loop_nil:
  assumes "\<forall>k<length xs. curDuration v + start_offset xs (Suc k) \<le> t + futureTime"
  shows "window_loop T t i (map Some xs @ None # rest) v = Inl NilPointerDereference"
  using assms
proof (induction xs arbitrary: v i)
  case Nil
  then show ?case by simp
next
  case (Cons x xs)
  let ?c = "curDuration v + Duration x"
  let ?v = "if ?c + 3 * T > t
            then v\<lparr>curDuration := ?c, sequence := (if sequence v = - 1 then int i else sequence v),
                   curPlaylist := append_ignoring (curPlaylist v) x\<rparr>
            else v\<lparr>curDuration := ?c\<rparr>"
  from Cons.prems have nb: "\<not> ?c > t + futureTime"
    by (simp add: All_less_Suc2 start_offset_Cons start_offset_0)
  from Cons.prems have "\<forall>k<length xs. curDuration ?v + start_offset xs (Suc k) \<le> t + futureTime"
    by (simp add: All_less_Suc2 start_offset_Cons add.assoc)
  from Cons.IH[OF this, of "Suc i"] nb show ?case
    by (simp add: window_loop_step del: window_loop.simps)
qed

section \<open>Case folding and the segment lookup\<close>

lemma of_char_lower:
  "(of_char (ascii_lower c) :: nat) =
     (if 65 \<le> (of_char c :: nat) \<and> (of_char c :: nat) \<le> 90 then of_char c + 32 else of_char c)"
  by (simp add: ascii_lower_def)

lemma fold_match_iff: "a = b \<or> fold_match a b \<longleftrightarrow> ascii_lower a = ascii_lower b"
proof -
  have "ascii_lower a = ascii_lower b \<longleftrightarrow>
          (of_char (ascii_lower a) :: nat) = of_char (ascii_lower b)"
    by simp
  moreover have "a = b \<longleftrightarrow> (of_char a :: nat) = of_char b"
    by simp
  ultimately show ?thesis
    unfolding of_char_lower fold_match_def Let_def
    by (auto simp: min_def max_def)
qed

lemma EqualFold_ascii:
  assumes "ascii s" and "ascii t"
  shows "EqualFold U s t \<longleftrightarrow> same_up_to_case s t"
  using assms
proof (induction U s t rule: EqualFold.induct)
  case (4 U a s b t)
  then show ?case
    using fold_match_iff[of a b] by (auto simp: same_up_to_case_def ascii_def)
qed (simp_all add: same_up_to_case_def)

lemma find_segment_first:
  assumes "k < length segs" and "EqualFold U (URI (segs ! k)) url"
    and "\<forall>j<k. \<not> EqualFold U (URI (segs ! j)) url"
  shows "find_segment U url (map Some segs @ rest) c =
           Inr (Some (segs ! k), c + start_offset segs k)"
  using assms
proof (induction segs arbitrary: k c)
  case Nil
  then show ?case by simp
next
  case (Cons x xs)
  show ?case
  proof (cases k)
    case 0
    with Cons.prems show ?thesis by (simp add: start_offset_0)
  next
    case (Suc k')
    with Cons.prems have "\<not> EqualFold U (URI x) url" by auto
    moreover from Suc Cons.prems have "k' < length xs" "EqualFold U (URI (xs ! k')) url"
      "\<forall>j<k'. \<not> EqualFold U (URI (xs ! j)) url" by auto
    from Cons.IH[OF this, of "c + Duration x"]
    have "find_segment U url (map Some xs @ rest) (c + Duration x) =
            Inr (Some (xs ! k'), c + Duration x + start_offset xs k')" .
    ultimately show ?thesis using Suc by (simp add: start_offset_Cons add.assoc)
  qed
qed

lemma find_segment_none:
  assumes "\<forall>k<length segs. \<not> EqualFold U (URI (segs ! k)) url"
  shows "find_segment U url (map Some segs @ replicate pad None) c =
           (if pad = 0 then Inr (None, c + start_offset segs (length segs))
            else Inl NilPointerDereference)"
  using assms
proof (induction segs arbitrary: c)
  case Nil
  then show ?case by (cases pad) (simp_all add: start_offset_0)
next
  case (Cons x xs)
  from Cons.prems have "\<not> EqualFold U (URI x) url" by auto
  moreover from Cons.prems have "\<forall>k<length xs. \<not> EqualFold U (URI (xs ! k)) url" by auto
  from Cons.IH[OF this, of "c + Duration x"]
  have "find_segment U url (map Some xs @ replicate pad None) (c + Duration x) =
          (if pad = 0 then Inr (None, c + Duration x + start_offset xs (length xs))
           else Inl NilPointerDereference)" .
  ultimately show ?case by (simp add: start_offset_Cons add.assoc)
qed

lemma ServeSegment_lhls:
  "ServeSegment U l dir now (''/lhls/'' @ url) =
     (case dir url of
        None \<Rightarrow> Inr NotFound
      | Some content \<Rightarrow>
          (case find_segment U url (Segments (playlist l)) 0 of
             Inl p \<Rightarrow> Inl p
           | Inr (None, startOffset) \<Rightarrow> Inr NotFound
           | Inr (Some segment, startOffset) \<Rightarrow>
               Inr (SegmentOK
                 \<lparr>slept = (if startOffset > now - startTime l
                           then Sleep (word_of_int (float_to_int (startOffset - (now - startTime l)))
                                  * Second)
                           else 0),
                  rate_duration =
                    max (startOffset + Duration segment
                           - stream_time (now - startTime l) startOffset) 1,
                  rate_limit =
                    real (length content) /
                      max (startOffset + Duration segment
                             - stream_time (now - startTime l) startOffset) 1,
                  payload = content\<rparr>)))"
  by (simp add: ServeSegment_def Let_def stream_time_def split: option.splits sum.splits)

lemma ServeSegment_found:
  assumes "dir url = Some content"
    and "find_segment U url (Segments (playlist l)) 0 = Inr (Some segment, startOffset)"
  shows "\<exists>tr. ServeSegment U l dir now (''/lhls/'' @ url) = Inr (SegmentOK tr) \<and>
           rate_duration tr =
             max (startOffset + Duration segment - stream_time (now - startTime l) startOffset) 1 \<and>
           1 \<le> rate_duration tr \<and> rate_duration tr \<noteq> 0 \<and>
           rate_limit tr = real (length content) / rate_duration tr \<and>
           payload tr = content"
  using assms unfolding ServeSegment_lhls by simp

lemma unat_sentinel: "unat (- 1 :: 64 word) = 18446744073709551615"
  by (simp add: unsigned_minus_1_eq_mask mask_eq_exp_minus_1)

section \<open>The end of the slice\<close>

lemma start_offset_le_total:
  "\<forall>x\<in>set xs. 0 < Duration x \<Longrightarrow> start_offset xs k \<le> start_offset xs (length xs)"
proof (induction xs arbitrary: k)
  case Nil
  then show ?case by (simp add: start_offset_def)
next
  case (Cons x xs)
  then have ih: "start_offset xs j \<le> start_offset xs (length xs)" for j by simp
  show ?case
  proof (cases k)
    case 0
    from Cons.prems start_offset_nonneg[of xs "length xs"]
    have "0 \<le> start_offset xs (length xs)" by simp
    with Cons.prems 0 show ?thesis by (simp add: start_offset_0 start_offset_Cons)
  next
    case (Suc j)
    with ih[of j] show ?thesis by (simp add: start_offset_Cons)
  qed
qed

lemma total_duration_decoded:
  "Segments pl = map Some segs @ replicate pad None \<Longrightarrow>
     total_duration (Segments pl) = start_offset segs (length segs)"
  by (simp add: total_duration_nil total_duration_Some)

lemma run_window_nil:
  assumes "Segments pl = map Some segs @ replicate (Suc pad) None"
    and "\<forall>k<length segs. start_offset segs (Suc k) \<le> t + futureTime"
  shows "run_window pl t fresh = Inl NilPointerDereference"
proof -
  let ?v = "\<lparr>curDuration = 0, sequence = - 1, curPlaylist = fresh\<rparr>"
  from assms(2) have "\<forall>k<length segs. curDuration ?v + start_offset segs (Suc k) \<le> t + futureTime"
    by simp
  from window_loop_nil[OF this, of "TargetDuration pl" 0 "replicate pad None"] assms(1)
  show ?thesis
    by (simp add: run_window_def)
qed

lemma breaks_before_the_end:
  assumes "Segments pl = map Some segs @ replicate pad None"
    and "0 \<le> t" and "t + futureTime < total_duration (Segments pl)"
  shows "\<exists>k<length segs. start_offset segs (Suc k) > t + futureTime"
proof -
  from total_duration_decoded[OF assms(1)] assms(3)
  have total: "t + futureTime < start_offset segs (length segs)"
    by simp
  with assms(2) have "segs \<noteq> []"
    by (auto simp: start_offset_def futureTime_def)
  then have "length segs - 1 < length segs" "Suc (length segs - 1) = length segs"
    by simp_all
  with total show ?thesis
    by (intro exI[of _ "length segs - 1"]) simp
qed

text \<open>
  Wherever the loop returns at two times before the end of the stream, the sequence numbers
  are ordered as the times are.
\<close>

lemma run_window_monotone:
  assumes "Segments pl = map Some segs @ replicate pad None"
    and "\<forall>s\<in>set segs. 0 < Duration s" and "0 \<le> TargetDuration pl"
    and "0 \<le> t1" and "t1 < t2" and "t2 < total_duration (Segments pl)"
    and "run_window pl t1 blank = Inr v1" and "run_window pl t2 blank = Inr v2"
  shows "0 \<le> sequence v1 \<and> sequence v1 \<le> sequence v2"
proof -
  let ?T = "TargetDuration pl"
  from total_duration_decoded[OF assms(1)] assms(6)
  have total: "t2 < 0 + start_offset segs (length segs)"
    by simp
  with assms(5) have total1: "t1 < 0 + start_offset segs (length segs)"
    by simp
  from assms(5) have le: "t1 \<le> t2" by simp
  have "rule_sequence ?T t1 0 0 segs \<le> rule_sequence ?T t2 0 0 segs"
    by (rule rule_sequence_mono[OF assms(2,3,4) le total])
  moreover have "int 0 \<le> rule_sequence ?T t1 0 0 segs"
    by (rule rule_sequence_found[OF assms(2,3,4) total1])
  ultimately show ?thesis
    using run_window_rule(2)[OF assms(1,7)] run_window_rule(2)[OF assms(1,8)] by simp
qed

section \<open>The window of a manifest\<close>

text \<open>
  C1 (as amended). The slice of the playlist holds the segments \<open>segs\<close>, all of positive
  duration, and nil in the slots after them; \<open>t\<close> is an elapsed time with
  \<open>0 \<le> t < duration\<close>. When \<open>t + 5\<close> is less than the total duration a manifest is
  produced. Whenever one is produced it lists a contiguous run of the playlist: of the
  indices \<open>a, ..., a + n - 1\<close>, which are exactly those visited before the break (every
  earlier cursor is at most \<open>t + 5\<close>) whose cursor plus three target durations exceeds
  \<open>t\<close>, it lists the first ten. No listed segment starts after \<open>t + 5\<close>.
\<close>

theorem window_contiguous_capped:
  assumes segs: "Segments (playlist l) = map Some segs @ replicate pad None"
    and pos: "\<forall>s\<in>set segs. 0 < Duration s"
    and t: "t = now - startTime l" "0 \<le> t" "t < duration l"
  shows "(t + futureTime < total_duration (Segments (playlist l)) \<longrightarrow>
            (\<exists>m. fst (ServeManifest l now now') = Inr (ManifestOK m))) \<and>
         (\<forall>m. fst (ServeManifest l now now') = Inr (ManifestOK m) \<longrightarrow>
            (\<exists>a n. m_Segments m = take (min 10 n) (drop a segs) \<and> a + n \<le> length segs \<and>
               (\<forall>k<length segs. (a \<le> k \<and> k < a + n) \<longleftrightarrow>
                  ((\<forall>j<k. start_offset segs (Suc j) \<le> t + futureTime) \<and>
                   t < start_offset segs (Suc k) + 3 * TargetDuration (playlist l))) \<and>
               (\<forall>k. a \<le> k \<and> k < a + n \<longrightarrow> start_offset segs k \<le> t + futureTime)))"
proof (intro conjI allI impI)
  from t have eff: "effective_time l now = t"
    by (simp add: effective_time_def)
  {
    assume "t + futureTime < total_duration (Segments (playlist l))"
    from breaks_before_the_end[OF segs t(2) this]
    have "\<exists>k<length segs. start_offset segs (Suc k) > effective_time l now + futureTime"
      by (simp add: eff)
    then have "replicate pad (None :: MediaSegment option) = [] \<or>
        (\<exists>k<length segs. start_offset segs (Suc k) > effective_time l now + futureTime)"
      by simp
    from ServeManifest_produced[OF segs this, of now'] obtain r
      where r: "fst (ServeManifest l now now') = Inr r"
      by blast
    from ServeManifest_returns[OF r] r
    show "\<exists>m. fst (ServeManifest l now now') = Inr (ManifestOK m)"
      by auto
  }
  fix m
  assume m: "fst (ServeManifest l now now') = Inr (ManifestOK m)"
  let ?T = "TargetDuration (playlist l)"
  from rule_window_run[OF pos, of ?T t 0] obtain a n where an: "a + n \<le> length segs"
    "rule_window ?T t 0 segs = take n (drop a segs)"
    "\<forall>k<length segs. (a \<le> k \<and> k < a + n) \<longleftrightarrow>
       ((\<forall>j<k. start_offset segs (Suc j) \<le> t + 5) \<and> t < start_offset segs (Suc k) + 3 * ?T)"
    by auto
  have off: "start_offset segs k \<le> t + 5" if "a \<le> k" "k < a + n" for k
  proof (cases k)
    case 0
    with t(2) show ?thesis by (simp add: start_offset_0)
  next
    case (Suc j)
    from that an(1) have "k < length segs" by simp
    with an(3) that have "\<forall>j<k. start_offset segs (Suc j) \<le> t + 5" by blast
    with Suc show ?thesis by simp
  qed
  from ServeManifest_rule[OF segs m] eff an(2)
  have "m_Segments m = take (min 10 n) (drop a segs)"
    by simp
  with an(1,3) off
  show "\<exists>a n. m_Segments m = take (min 10 n) (drop a segs) \<and> a + n \<le> length segs \<and>
               (\<forall>k<length segs. (a \<le> k \<and> k < a + n) \<longleftrightarrow>
                  ((\<forall>j<k. start_offset segs (Suc j) \<le> t + futureTime) \<and>
                   t < start_offset segs (Suc k) + 3 * TargetDuration (playlist l))) \<and>
               (\<forall>k. a \<le> k \<and> k < a + n \<longrightarrow> start_offset segs k \<le> t + futureTime)"
    by (auto simp: futureTime_def)
qed

text \<open>
  The theorem at the twelve one-second segments as the decoder leaves them (1012 nil slots
  after them), six seconds into the stream.
\<close>

theorem window_contiguous_capped_witness:
  "Segments (playlist twelve) = map Some twelve_segs @ replicate 1012 None \<and>
   (6::real) = 6 - startTime twelve \<and> (0::real) \<le> 6 \<and> 6 < duration twelve \<and>
   6 + futureTime < total_duration (Segments (playlist twelve)) \<and>
   (\<exists>a n m. fst (ServeManifest twelve 6 6) = Inr (ManifestOK m) \<and>
       m_Segments m = take (min 10 n) (drop a twelve_segs) \<and> a + n \<le> length twelve_segs)"
proof -
  have h: "Segments (playlist twelve) = map Some twelve_segs @ replicate 1012 None"
    "\<forall>s\<in>set twelve_segs. 0 < Duration s"
    "(6::real) = 6 - startTime twelve" "(0::real) \<le> 6" "6 < duration twelve"
    by (code_simp, simp add: twelve_segs_def, code_simp, simp, code_simp)
  have b: "6 + futureTime < total_duration (Segments (playlist twelve))"
    by code_simp
  from window_contiguous_capped[OF h, of 6] b h(1,3,4,5) show ?thesis
    by blast
qed

text \<open>
  C1 as stated fails there: the loop visits all twelve segments (the cursor first exceeds
  \<open>6 + 5\<close> at the last one) and each passes the inclusion test, yet the manifest lists ten;
  the segment at index 11 is visited and passes, and is not listed.
\<close>

theorem window_contiguous_capped_counterexample:
  "fst (ServeManifest twelve 6 6) =
     Inr (ManifestOK \<lparr>m_SeqNo = 0, m_Segments = take 10 twelve_segs\<rparr>) \<and>
   start_offset twelve_segs 11 \<le> 6 + futureTime \<and>
   6 < start_offset twelve_segs 12 + 3 * TargetDuration (playlist twelve) \<and>
   twelve_segs ! 11 \<notin> set (take 10 twelve_segs)"
  by code_simp

text \<open>
  C10. Whatever the playlist and the instant, a manifest lists at most ten segments. On a
  playlist without nil entries a manifest is produced and lists the first ten of the
  segments the window rule admits; on a playlist with nil slots after its segments every
  manifest produced lists the first ten of those the rule admits. The admitted segments
  beyond the tenth are dropped.
\<close>

theorem manifest_at_most_ten:
  "(\<forall>r. fst (ServeManifest l now now') = Inr r \<longrightarrow>
        (\<exists>m. r = ManifestOK m \<and> length (m_Segments m) \<le> 10)) \<and>
   (\<forall>segs. Segments (playlist l) = map Some segs \<longrightarrow>
        (\<exists>m. fst (ServeManifest l now now') = Inr (ManifestOK m) \<and>
             m_Segments m =
               take 10 (rule_window (TargetDuration (playlist l)) (effective_time l now) 0 segs))) \<and>
   (\<forall>segs pad m. Segments (playlist l) = map Some segs @ replicate pad None \<and>
        fst (ServeManifest l now now') = Inr (ManifestOK m) \<longrightarrow>
        m_Segments m =
          take 10 (rule_window (TargetDuration (playlist l)) (effective_time l now) 0 segs))"
proof (intro conjI allI impI)
  fix r
  assume "fst (ServeManifest l now now') = Inr r"
  from ServeManifest_returns[OF this]
  show "\<exists>m. r = ManifestOK m \<and> length (m_Segments m) \<le> 10"
    by auto
next
  fix segs
  assume "Segments (playlist l) = map Some segs"
  then have s: "Segments (playlist l) = map Some segs @ replicate 0 None"
    and e: "Segments (playlist l) = map Some segs @ []"
    by simp_all
  from ServeManifest_produced[OF e, of now now'] obtain r
    where r: "fst (ServeManifest l now now') = Inr r"
    by auto
  from ServeManifest_rule[OF s r] r
  show "\<exists>m. fst (ServeManifest l now now') = Inr (ManifestOK m) \<and>
          m_Segments m =
            take 10 (rule_window (TargetDuration (playlist l)) (effective_time l now) 0 segs)"
    by simp
next
  fix segs pad m
  assume a: "Segments (playlist l) = map Some segs @ replicate pad None \<and>
        fst (ServeManifest l now now') = Inr (ManifestOK m)"
  then have s: "Segments (playlist l) = map Some segs @ replicate pad None"
    and r: "fst (ServeManifest l now now') = Inr (ManifestOK m)"
    by simp_all
  from ServeManifest_rule[OF s r]
  show "m_Segments m =
          take 10 (rule_window (TargetDuration (playlist l)) (effective_time l now) 0 segs)"
    by simp
qed

text \<open>With the twelve segments the rule admits twelve and the manifest lists ten.\<close>

theorem manifest_at_most_ten_witness:
  "length (rule_window (TargetDuration (playlist twelve)) (effective_time twelve 6) 0 twelve_segs)
     = 12 \<and>
   (\<exists>m. fst (ServeManifest twelve 6 6) = Inr (ManifestOK m) \<and> length (m_Segments m) = 10)"
proof -
  have h: "Segments (playlist twelve) = map Some twelve_segs @ replicate 1012 None"
    by code_simp
  have r: "rule_window (TargetDuration (playlist twelve)) (effective_time twelve 6) 0 twelve_segs
             = twelve_segs"
    by code_simp
  have n: "length twelve_segs = 12"
    by (simp add: twelve_segs_def)
  have "fst (ServeManifest twelve 6 6) =
          Inr (ManifestOK \<lparr>m_SeqNo = 0, m_Segments = take 10 twelve_segs\<rparr>)"
    by code_simp
  with manifest_at_most_ten[of twelve 6 6] h r n show ?thesis
    by auto
qed

text \<open>
  C2 (as amended). Three segments of 10 seconds, target duration 10: at elapsed 0 the window
  is segment 0 alone, since the stop check \<open>10 > 0 + 5\<close> already holds after it; the
  sequence number is 0. Segment 2 resolves to start offset 20, and a request for it at
  elapsed 0 sleeps 20 seconds.
\<close>

theorem three_segments_scenario:
  "fst (ServeManifest three 0 0) =
     Inr (ManifestOK \<lparr>m_SeqNo = 0, m_Segments = [three_segs ! 0]\<rparr>) \<and>
   find_segment U ''seg002.ts'' (Segments (playlist three)) 0 =
     Inr (Some (three_segs ! 2), 20) \<and>
   ServeSegment U three three_files 0 ''/lhls/seg002.ts'' =
     Inr (SegmentOK \<lparr>slept = 20 * 1000000000, rate_duration = 10, rate_limit = 1,
                      payload = ''0123456789''\<rparr>)"
  by code_simp

text \<open>C2 as stated fails: the window at elapsed 0 is not segment 0 followed by segment 1.\<close>

theorem three_segments_scenario_counterexample:
  "fst (ServeManifest three 0 0) \<noteq>
     Inr (ManifestOK \<lparr>m_SeqNo = 0, m_Segments = [three_segs ! 0, three_segs ! 1]\<rparr>)"
  by code_simp

text \<open>
  C8. Whenever a manifest is produced and lists no segment, its sequence number is
  \<open>uint64(-1)\<close>, that is \<open>2 ^ 64 - 1\<close>. But where the slice has nil slots after its
  segments, the target duration is not negative and no segment's cursor plus three target
  durations exceeds the effective time, no manifest is produced: the stop check never
  fires, the loop runs into the first nil slot, and the request ends in a panic on line 120
  with \<^verbatim>\<open>sequence\<close> still -1.
\<close>

theorem no_segment_qualifies:
  "(\<forall>r. fst (ServeManifest l now now') = Inr r \<longrightarrow>
        (\<exists>m. r = ManifestOK m \<and>
             (m_Segments m = [] \<longrightarrow>
                m_SeqNo m = word_of_int (- 1) \<and> unat (m_SeqNo m) = 2 ^ 64 - 1))) \<and>
   (\<forall>segs pad. Segments (playlist l) = map Some segs @ replicate (Suc pad) None \<and>
        0 \<le> TargetDuration (playlist l) \<and>
        (\<forall>k<length segs. start_offset segs (Suc k) + 3 * TargetDuration (playlist l)
             \<le> effective_time l now) \<longrightarrow>
        rule_window (TargetDuration (playlist l)) (effective_time l now) 0 segs = [] \<and>
        fst (ServeManifest l now now') = Inl NilPointerDereference)"
proof (intro conjI allI impI)
  fix r
  assume "fst (ServeManifest l now now') = Inr r"
  from ServeManifest_returns[OF this]
  show "\<exists>m. r = ManifestOK m \<and>
          (m_Segments m = [] \<longrightarrow>
             m_SeqNo m = word_of_int (- 1) \<and> unat (m_SeqNo m) = 2 ^ 64 - 1)"
    by (auto simp: unat_sentinel)
next
  fix segs pad
  let ?T = "TargetDuration (playlist l)" and ?t = "effective_time l now"
  assume a: "Segments (playlist l) = map Some segs @ replicate (Suc pad) None \<and> 0 \<le> ?T \<and>
        (\<forall>k<length segs. start_offset segs (Suc k) + 3 * ?T \<le> ?t)"
  then have "\<forall>k<length segs. 0 + start_offset segs (Suc k) + 3 * ?T \<le> ?t"
    by simp
  from rule_none[OF this, of 0]
  show "rule_window ?T ?t 0 segs = []"
    by simp
  from a have "\<forall>k<length segs. start_offset segs (Suc k) \<le> ?t + futureTime"
    by (auto simp: futureTime_def intro: order_trans)
  with a have "run_window (playlist l) ?t blank = Inl NilPointerDereference"
    by (intro run_window_nil) auto
  then show "fst (ServeManifest l now now') = Inl NilPointerDereference"
    unfolding ServeManifest_run by simp
qed

text \<open>
  A playlist without segments at any instant (here 0), and one segment of 10 seconds under
  target duration 0 at elapsed 10: no segment qualifies, and the request panics. Under the
  target duration -2 the loop breaks at the first of the three segments without including
  it (elapsed 4.5): a manifest without segments is produced, numbered \<open>2 ^ 64 - 1\<close>.
\<close>

theorem no_segment_qualifies_witness:
  "fst (ServeManifest no_segments 0 0) = Inl NilPointerDereference \<and>
   fst (ServeManifest one_segment 10 10) = Inl NilPointerDereference \<and>
   (\<exists>m. fst (ServeManifest (new_handler negative_target ''.'' 0) (9 / 2) (9 / 2)) =
           Inr (ManifestOK m) \<and> m_Segments m = [] \<and> unat (m_SeqNo m) = 2 ^ 64 - 1)"
proof -
  have e: "Segments (playlist no_segments) = map Some [] @ replicate (Suc 1023) None"
    "0 \<le> TargetDuration (playlist no_segments)"
    by code_simp+
  have o: "Segments (playlist one_segment) =
             map Some [\<lparr>URI = ''only.ts'', Duration = 10\<rparr>] @ replicate (Suc 1022) None"
    "0 \<le> TargetDuration (playlist one_segment)"
    "start_offset [\<lparr>URI = ''only.ts'', Duration = 10\<rparr>] (Suc 0)
       + 3 * TargetDuration (playlist one_segment) \<le> effective_time one_segment 10"
    by code_simp+
  have n: "fst (ServeManifest (new_handler negative_target ''.'' 0) (9 / 2) (9 / 2)) =
             Inr (ManifestOK \<lparr>m_SeqNo = - 1, m_Segments = []\<rparr>)"
    by code_simp
  from no_segment_qualifies[of no_segments 0 0] e
  have "fst (ServeManifest no_segments 0 0) = Inl NilPointerDereference"
    by (metis length_map list.size(3) list.map(1) not_less_zero)
  moreover from no_segment_qualifies[of one_segment 10 10] o
  have "fst (ServeManifest one_segment 10 10) = Inl NilPointerDereference"
    by (metis One_nat_def length_Cons less_Suc0 list.size(3))
  moreover from no_segment_qualifies[of "new_handler negative_target ''.'' 0" "9 / 2" "9 / 2"] n
  have "\<exists>m. fst (ServeManifest (new_handler negative_target ''.'' 0) (9 / 2) (9 / 2)) =
           Inr (ManifestOK m) \<and> m_Segments m = [] \<and> unat (m_SeqNo m) = 2 ^ 64 - 1"
    by auto
  ultimately show ?thesis
    by simp
qed

text \<open>
  C5 (as amended). When the elapsed time is strictly greater than the duration, the response
  is the one of a request at elapsed 0 (a handler anchored at \<open>now\<close>), and the handler is
  re-anchored at the instant \<^verbatim>\<open>time.Now\<close> returns.
\<close>

theorem reset_when_duration_has_passed:
  assumes "duration l < now - startTime l"
  shows "ServeManifest l now now' =
           (fst (ServeManifest (l\<lparr>startTime := now\<rparr>) now now'), l\<lparr>startTime := now'\<rparr>)"
  using assms
  by (cases "duration l < 0")
    (simp_all add: ServeManifest_def Let_def NewMediaPlaylist_def split: sum.splits)

theorem reset_when_duration_has_passed_witness:
  "duration three < 31 - startTime three \<and>
   ServeManifest three 31 32 =
     (Inr (ManifestOK \<lparr>m_SeqNo = 0, m_Segments = [three_segs ! 0]\<rparr>), three\<lparr>startTime := 32\<rparr>)"
proof -
  have h: "duration three < 31 - startTime three"
    by code_simp
  have "fst (ServeManifest (three\<lparr>startTime := 31\<rparr>) 31 32) =
          Inr (ManifestOK \<lparr>m_SeqNo = 0, m_Segments = [three_segs ! 0]\<rparr>)"
    by code_simp
  with reset_when_duration_has_passed[OF h, of 32] h show ?thesis
    by simp
qed

text \<open>
  C5 as stated fails when the elapsed time equals the duration (30 seconds here): the
  handler is left as it was, and the request does not get the response of elapsed 0 (it is
  computed for elapsed 30, where the loop runs past the last segment).
\<close>

theorem reset_when_duration_has_passed_counterexample:
  "30 - startTime three = duration three \<and>
   snd (ServeManifest three 30 31) = three \<and>
   fst (ServeManifest three 30 31) = Inl NilPointerDereference \<and>
   fst (ServeManifest (three\<lparr>startTime := 30\<rparr>) 30 31) =
     Inr (ManifestOK \<lparr>m_SeqNo = 0, m_Segments = [three_segs ! 0]\<rparr>)"
  by code_simp

text \<open>
  C6. The slice has nil slots after its segments, all of positive duration, and \<open>t2\<close> lies
  in the last five seconds of the stream (\<open>total \<le> t2 + 5\<close>, \<open>t2 < total\<close> included): the
  stop check never fires, the loop reaches the first nil slot, and the run for \<open>t2\<close> ends in
  a panic on line 120. It computes no sequence number to compare with the one of an earlier
  time.
\<close>

theorem no_sequence_in_the_last_seconds:
  assumes "Segments pl = map Some segs @ replicate (Suc pad) None"
    and "\<forall>s\<in>set segs. 0 < Duration s"
    and "total_duration (Segments pl) \<le> t2 + futureTime"
  shows "run_window pl t2 fresh = Inl NilPointerDereference"
proof -
  from total_duration_decoded[OF assms(1)] assms(3)
  have "start_offset segs (length segs) \<le> t2 + futureTime"
    by simp
  with start_offset_le_total[OF assms(2)]
  have "\<forall>k<length segs. start_offset segs (Suc k) \<le> t2 + futureTime"
    by (auto intro: order_trans)
  with assms(1) show ?thesis
    by (rule run_window_nil)
qed

text \<open>
  Twelve segments of one second under target duration 1 (total 12): the sequence number is
  2 at elapsed 5 and 3 at elapsed 6.5; at elapsed 8 the loop panics, and so does the
  request.
\<close>

theorem no_sequence_in_the_last_seconds_witness:
  "(0::real) \<le> 5 \<and> (5::real) < 8 \<and> 8 < duration twelve_short \<and>
   total_duration (Segments (playlist twelve_short)) \<le> 8 + futureTime \<and>
   map_sum id sequence (run_window (playlist twelve_short) 5 blank) = Inr 2 \<and>
   map_sum id sequence (run_window (playlist twelve_short) (13 / 2) blank) = Inr 3 \<and>
   run_window (playlist twelve_short) 8 blank = Inl NilPointerDereference \<and>
   fst (ServeManifest twelve_short 8 8) = Inl NilPointerDereference"
proof -
  have h: "Segments (playlist twelve_short) = map Some twelve_segs @ replicate (Suc 1011) None"
    "\<forall>s\<in>set twelve_segs. 0 < Duration s"
    "total_duration (Segments (playlist twelve_short)) \<le> 8 + futureTime"
    by (code_simp, simp add: twelve_segs_def, code_simp)
  have e: "(0::real) \<le> 5 \<and> (5::real) < 8 \<and> 8 < duration twelve_short"
    "map_sum id sequence (run_window (playlist twelve_short) 5 blank) = Inr 2"
    "map_sum id sequence (run_window (playlist twelve_short) (13 / 2) blank) = Inr 3"
    "fst (ServeManifest twelve_short 8 8) = Inl NilPointerDereference"
    by code_simp+
  from no_sequence_in_the_last_seconds[OF h, of blank] h(3) e show ?thesis
    by simp
qed

section \<open>Serving a segment\<close>

text \<open>
  C3. The segment at start offset 10 requested at elapsed 9.5 lies half a second in the
  future. The handler sleeps 0 nanoseconds: the conversion to \<^verbatim>\<open>time.Duration\<close> drops the
  fraction before the multiplication by \<^verbatim>\<open>time.Second\<close>. The rate is then computed for
  stream time 10, as if the half second had passed.
\<close>

theorem gate_sleeps_whole_seconds:
  "find_segment U ''seg001.ts'' (Segments (playlist three)) 0 =
     Inr (Some (three_segs ! 1), 10) \<and>
   stream_time (19 / 2 - startTime three) 10 = 10 \<and>
   ServeSegment U three three_files (19 / 2) ''/lhls/seg001.ts'' =
     Inr (SegmentOK \<lparr>slept = 0, rate_duration = 10, rate_limit = 1,
                      payload = ''0123456789''\<rparr>)"
  by code_simp

text \<open>
  C4. For a request whose file opens and whose URI resolves to a segment, the handler
  serves the file with the rate duration \<open>max (startOffset + duration - time) 1\<close>, where
  \<open>time\<close> is the value of \<^verbatim>\<open>curStreamTime\<close> on line 85: the elapsed time when the segment
  has started, the start offset when it lay in the future (so that the rate duration is
  then \<open>max duration 1\<close>). The rate duration is at least 1, hence not 0, and the rate
  limit is the file's size divided by it.
\<close>

theorem shaped_rate:
  assumes "dir url = Some content"
    and "find_segment U url (Segments (playlist l)) 0 = Inr (Some segment, startOffset)"
  shows "\<exists>tr. ServeSegment U l dir now (''/lhls/'' @ url) = Inr (SegmentOK tr) \<and>
           rate_duration tr =
             max (startOffset + Duration segment - stream_time (now - startTime l) startOffset) 1 \<and>
           (startOffset \<le> now - startTime l \<longrightarrow>
              rate_duration tr = max (startOffset + Duration segment - (now - startTime l)) 1) \<and>
           (now - startTime l < startOffset \<longrightarrow> rate_duration tr = max (Duration segment) 1) \<and>
           1 \<le> rate_duration tr \<and> rate_duration tr \<noteq> 0 \<and>
           rate_limit tr = real (length content) / rate_duration tr"
  using ServeSegment_found[where dir = dir and url = url, OF assms, of now]
  by (auto simp: stream_time_def)

text \<open>Segment 1 (offset 10, 10 seconds, 10 bytes) requested at elapsed 25: the floor applies.\<close>

theorem shaped_rate_witness:
  "\<exists>tr. ServeSegment exact_beyond_ascii three three_files 25 ''/lhls/seg001.ts'' =
          Inr (SegmentOK tr) \<and>
        rate_duration tr = 1 \<and> rate_limit tr = 10"
proof -
  have h: "three_files ''seg001.ts'' = Some ''0123456789''"
    "find_segment exact_beyond_ascii ''seg001.ts'' (Segments (playlist three)) 0 =
       Inr (Some (three_segs ! 1), 10)"
    by code_simp+
  have "max (10 + Duration (three_segs ! 1) - stream_time (25 - startTime three) 10) 1 = 1"
    by code_simp
  with shaped_rate[where dir = three_files and url = "''seg001.ts''", OF h, of 25] show ?thesis
    by auto
qed

text \<open>
  C7 (as amended). The slice holds the segments \<open>segs\<close> and nil in the slots after them.
  The file named by the request is opened first: a request whose file does not open is
  answered NotFound, whatever the playlist holds. When the file opens and \<open>k\<close> is the first
  index whose URI \<^verbatim>\<open>strings.EqualFold\<close> matches with the name, the lookup yields that
  segment with the sum of the durations before it, and the file is served. On ASCII text
  the comparison holds exactly of the strings that differ at most in the case of their
  letters.
\<close>

theorem segment_resolution:
  assumes "Segments (playlist l) = map Some segs @ replicate pad None"
  shows "(dir url = None \<longrightarrow> ServeSegment U l dir now (''/lhls/'' @ url) = Inr NotFound) \<and>
         (\<forall>content. dir url = Some content \<longrightarrow>
            (\<forall>k<length segs.
               EqualFold U (URI (segs ! k)) url \<and>
               (\<forall>j<k. \<not> EqualFold U (URI (segs ! j)) url) \<longrightarrow>
               find_segment U url (Segments (playlist l)) 0 =
                 Inr (Some (segs ! k), start_offset segs k) \<and>
               (\<exists>tr. ServeSegment U l dir now (''/lhls/'' @ url) = Inr (SegmentOK tr) \<and>
                     payload tr = content))) \<and>
         (\<forall>s. ascii s \<and> ascii url \<longrightarrow> (EqualFold U s url \<longleftrightarrow> same_up_to_case s url))"
proof (intro conjI allI impI)
  assume "dir url = None"
  then show "ServeSegment U l dir now (''/lhls/'' @ url) = Inr NotFound"
    unfolding ServeSegment_lhls by simp
next
  fix content k
  assume content: "dir url = Some content" and k: "k < length segs"
    and hit: "EqualFold U (URI (segs ! k)) url \<and> (\<forall>j<k. \<not> EqualFold U (URI (segs ! j)) url)"
  then have "EqualFold U (URI (segs ! k)) url" "\<forall>j<k. \<not> EqualFold U (URI (segs ! j)) url"
    by simp_all
  from find_segment_first[OF k this, of "replicate pad None" 0] assms
  show found: "find_segment U url (Segments (playlist l)) 0 =
                 Inr (Some (segs ! k), start_offset segs k)"
    by simp
  from ServeSegment_found[where dir = dir and url = url, OF content found, of now]
  show "\<exists>tr. ServeSegment U l dir now (''/lhls/'' @ url) = Inr (SegmentOK tr) \<and>
          payload tr = content"
    by blast
next
  fix s
  assume "ascii s \<and> ascii url"
  then show "EqualFold U s url \<longleftrightarrow> same_up_to_case s url"
    by (simp add: EqualFold_ascii)
qed

text \<open>
  In a directory that opens both spellings, \<^verbatim>\<open>SEG001.ts\<close> resolves to the stored
  \<^verbatim>\<open>seg001.ts\<close> at offset 10 and the file is served; a name no file has is answered
  NotFound.
\<close>

theorem segment_resolution_witness:
  "ascii (URI (three_segs ! 1)) \<and> ascii ''SEG001.ts'' \<and>
   same_up_to_case (URI (three_segs ! 1)) ''SEG001.ts'' \<and>
   EqualFold exact_beyond_ascii (URI (three_segs ! 1)) ''SEG001.ts'' \<and>
   find_segment exact_beyond_ascii ''SEG001.ts'' (Segments (playlist three)) 0 =
     Inr (Some (three_segs ! 1), 10) \<and>
   (\<exists>tr. ServeSegment exact_beyond_ascii three upper_case_too 0 ''/lhls/SEG001.ts'' =
            Inr (SegmentOK tr) \<and>
         payload tr = ''0123456789'') \<and>
   ServeSegment exact_beyond_ascii three three_files 0 ''/lhls/seg001.mp4'' = Inr NotFound"
proof -
  have h: "Segments (playlist three) = map Some three_segs @ replicate 1021 None"
    by code_simp
  have f: "upper_case_too ''SEG001.ts'' = Some ''0123456789''"
    "three_files ''seg001.mp4'' = None"
    by code_simp+
  have a: "ascii (URI (three_segs ! 1))" "ascii ''SEG001.ts''"
    "same_up_to_case (URI (three_segs ! 1)) ''SEG001.ts''"
    by code_simp+
  have b: "ascii (URI (three_segs ! 0))"
    "\<not> same_up_to_case (URI (three_segs ! 0)) ''SEG001.ts''"
    by code_simp+
  have k: "(1::nat) < length three_segs" "start_offset three_segs 1 = 10"
    by (simp add: three_segs_def, code_simp)
  note at_request =
    segment_resolution[OF h, of upper_case_too "''SEG001.ts''" exact_beyond_ascii 0]
  note fold = at_request[THEN conjunct2, THEN conjunct2, rule_format]
  note first_match = at_request[THEN conjunct2, THEN conjunct1, rule_format]
  from fold[OF conjI[OF a(1,2)]] a(3)
  have m: "EqualFold exact_beyond_ascii (URI (three_segs ! 1)) ''SEG001.ts''"
    by (rule iffD2)
  from fold[OF conjI[OF b(1) a(2)]] b(2)
  have "\<not> EqualFold exact_beyond_ascii (URI (three_segs ! 0)) ''SEG001.ts''"
    by (simp only: simp_thms)
  then have n: "\<forall>j<1. \<not> EqualFold exact_beyond_ascii (URI (three_segs ! j)) ''SEG001.ts''"
    by (simp only: less_one simp_thms)
  from first_match[OF f(1) k(1) conjI[OF m n]] k(2)
  have served: "find_segment exact_beyond_ascii ''SEG001.ts'' (Segments (playlist three)) 0 =
          Inr (Some (three_segs ! 1), 10) \<and>
        (\<exists>tr. ServeSegment exact_beyond_ascii three upper_case_too 0 ''/lhls/SEG001.ts'' =
                 Inr (SegmentOK tr) \<and>
              payload tr = ''0123456789'')"
    by (simp only: append.simps simp_thms)
  from segment_resolution[OF h, of three_files "''seg001.mp4''" exact_beyond_ascii 0,
      THEN conjunct1, rule_format, OF f(2)]
  have missing:
    "ServeSegment exact_beyond_ascii three three_files 0 ''/lhls/seg001.mp4'' = Inr NotFound"
    by (simp only: append.simps simp_thms)
  from a m served missing show ?thesis
    by (intro conjI) (simp_all only: simp_thms)
qed

text \<open>
  C7 as stated fails where the directory holds the file under its stored name only: the
  request \<^verbatim>\<open>SEG001.ts\<close> differs from the stored URI \<^verbatim>\<open>seg001.ts\<close> only in letter case, and
  is answered NotFound, because the file is opened under the requested spelling first.
\<close>

theorem segment_resolution_counterexample:
  "URI (three_segs ! 1) = ''seg001.ts'' \<and> same_up_to_case ''seg001.ts'' ''SEG001.ts'' \<and>
   lower_case_only ''seg001.ts'' = Some ''0123456789'' \<and>
   ServeSegment exact_beyond_ascii three lower_case_only 0 ''/lhls/SEG001.ts'' = Inr NotFound"
  by code_simp

section \<open>The comparison routes\<close>

text \<open>
  C9 (as amended). \<^verbatim>\<open>/live/manifest.m3u8\<close> is handled as \<^verbatim>\<open>/lhls/manifest.m3u8\<close> is, by
  \<open>ServeManifest\<close>. Every other path below \<^verbatim>\<open>/live/\<close> is answered by the file server: the
  file's bytes or NotFound, whatever the clock and the anchor, and the handler stays as it
  was.
\<close>

theorem live_routes:
  "mux U l dir now now' ''/live/manifest.m3u8'' = ServeManifest l now now' \<and>
   mux U l dir now now' ''/lhls/manifest.m3u8'' = ServeManifest l now now' \<and>
   (prefix ''/live/'' path \<and> path \<noteq> ''/live/manifest.m3u8'' \<longrightarrow>
      mux U l dir now now' path = (Inr (FileServer dir (drop (length ''/live/'') path)), l))"
  by (simp add: mux_def ServeHTTP_def suffix_to_prefix)

theorem live_routes_witness:
  "prefix ''/live/'' ''/live/seg001.ts'' \<and> ''/live/seg001.ts'' \<noteq> ''/live/manifest.m3u8'' \<and>
   mux exact_beyond_ascii three three_files 31 32 ''/live/seg001.ts'' =
     (Inr (FileOK ''0123456789''), three)"
proof -
  have h: "prefix ''/live/'' ''/live/seg001.ts'' \<and> ''/live/seg001.ts'' \<noteq> ''/live/manifest.m3u8''"
    by simp
  have "FileServer three_files (drop (length ''/live/'') ''/live/seg001.ts'') = FileOK ''0123456789''"
    by code_simp
  with live_routes[of exact_beyond_ascii three three_files 31 32 "''/live/seg001.ts''"] h
  show ?thesis
    by simp
qed

text \<open>
  C9 as stated fails on \<^verbatim>\<open>/live/manifest.m3u8\<close>: the manifest is windowed (one of the three
  segments at elapsed 0), it depends on the clock (all three at elapsed 20), and past the
  duration the request moves the anchor.
\<close>

theorem live_routes_counterexample:
  "mux exact_beyond_ascii three three_files 0 0 ''/live/manifest.m3u8'' =
     (Inr (ManifestOK \<lparr>m_SeqNo = 0, m_Segments = [three_segs ! 0]\<rparr>), three) \<and>
   mux exact_beyond_ascii three three_files 20 20 ''/live/manifest.m3u8'' =
     (Inr (ManifestOK \<lparr>m_SeqNo = 0, m_Segments = three_segs\<rparr>), three) \<and>
   mux exact_beyond_ascii three three_files 31 32 ''/live/manifest.m3u8'' =
     (Inr (ManifestOK \<lparr>m_SeqNo = 0, m_Segments = [three_segs ! 0]\<rparr>), three\<lparr>startTime := 32\<rparr>)"
  by code_simp

end
